theory Spec2Isabelle
  imports Main
begin

section \<open>Yakusoku Keeper: the trigger evaluation of \<open>yakusoku_keeper.py\<close>\<close>

text \<open>
  The development embeds \<open>YakusokuKeeper.get_rules\<close> and \<open>YakusokuKeeper.reset\<close>
  (lines 103 to 139 of \<open>src/yakusoku_keeper.py\<close>).

  \<^item> A rule set (one loaded YAML document) is an insertion-ordered dictionary from
    string keys to lists of strings: an association list. \<open>rule_set.get\<close> is
    \<open>map_of\<close>, \<open>rule_set.items()\<close> is the list itself. Documents with keys that
    are not strings or values that are not lists of strings are outside the model.
  \<^item> \<open>load_rules\<close> reads files; its result is an argument of \<open>get_rules\<close> here,
    and so is the reading of \<open>datetime.now()\<close>, an integer number of microseconds.
  \<^item> The float \<open>(now - last_time).total_seconds()\<close> of line 130 is modelled with
    its rounding to 53 significant bits.
  \<^item> An exception that leaves \<open>get_rules\<close> is the value \<open>Inl e\<close>; the object's
    fields as the exception leaves them are returned beside it.
  \<^item> Strings are byte strings (UTF-8). \<open>int(...)\<close> is modelled for ASCII text:
    surrounding white space, an optional sign, decimal digits. What \<open>int\<close> returns
    for a string with a character outside ASCII is a parameter, \<open>uni\<close>, of the
    model, and every theorem holds for every value of it. The interpreter is taken
    without a limit on the length of a decimal literal
    (\<open>sys.set_int_max_str_digits(0)\<close>, or a version before the limit existed).
\<close>

subsection \<open>String operations of the source\<close>

definition startswith :: "string \<Rightarrow> string \<Rightarrow> bool" where
  \<comment> \<open>\<open>s.startswith(p)\<close>\<close>
  "startswith s p = (take (length p) s = p)"

fun contains :: "string \<Rightarrow> string \<Rightarrow> bool" where
  \<comment> \<open>\<open>sub in s\<close>\<close>
  "contains sub [] = (sub = [])"
| "contains sub (c # cs) = (startswith (c # cs) sub \<or> contains sub cs)"

fun py_split :: "char \<Rightarrow> string \<Rightarrow> string list" where
  \<comment> \<open>\<open>s.split(sep)\<close> for a separator of one character\<close>
  "py_split sep [] = [[]]"
| "py_split sep (c # cs) =
     (if c = sep then [] # py_split sep cs
      else (case py_split sep cs of
              [] \<Rightarrow> [[c]]
            | w # ws \<Rightarrow> (c # w) # ws))"

definition is_space :: "char \<Rightarrow> bool" where
  \<comment> \<open>the white space that \<open>int\<close> skips around an ASCII string: tab, line feed,
      vertical tab, form feed, carriage return, space\<close>
  "is_space c = (c \<in> set [CHR 0x09, CHR 0x0A, CHR 0x0B, CHR 0x0C, CHR 0x0D, CHR 0x20])"

definition is_ascii :: "string \<Rightarrow> bool" where
  \<comment> \<open>no byte has its top bit set\<close>
  "is_ascii s = list_all (\<lambda>c. \<not> digit7 c) s"

definition strip :: "string \<Rightarrow> string" where
  "strip s = rev (dropWhile is_space (rev (dropWhile is_space s)))"

definition digit_val :: "char \<Rightarrow> int option" where
  \<comment> \<open>the value of a decimal digit\<close>
  "digit_val = map_of (zip ''0123456789'' [0, 1, 2, 3, 4, 5, 6, 7, 8, 9])"

fun parse_digits :: "int \<Rightarrow> string \<Rightarrow> int option" where
  "parse_digits acc [] = Some acc"
| "parse_digits acc (c # cs) =
     (case digit_val c of
        None \<Rightarrow> None
      | Some d \<Rightarrow> parse_digits (10 * acc + d) cs)"

definition parse_unsigned :: "string \<Rightarrow> int option" where
  "parse_unsigned s = (if s = [] then None else parse_digits 0 s)"

definition py_int :: "(string \<Rightarrow> int option) \<Rightarrow> string \<Rightarrow> int option" where
  \<comment> \<open>\<open>int(s)\<close>; \<open>None\<close> is the \<open>ValueError\<close>. For a string with a character
      outside ASCII, \<open>int\<close> consults the interpreter's Unicode tables of decimal
      digits and white space, which are no part of the source: its result there is
      the parameter \<open>uni\<close>.\<close>
  "py_int uni s =
     (if is_ascii s then
        (case strip s of
           [] \<Rightarrow> None
         | c # cs \<Rightarrow>
             if c = CHR ''-'' then map_option uminus (parse_unsigned cs)
             else if c = CHR ''+'' then parse_unsigned cs
             else parse_unsigned (c # cs))
      else uni s)"

subsection \<open>The comparison of line 130\<close>

text \<open>
  \<open>(now - last_time).total_seconds()\<close> is the float nearest to the quotient of
  the elapsed microseconds by \<open>10 ** 6\<close> (the true division of two integers, rounded
  to 53 significant bits, ties to even), and \<open>>=\<close> compares that float exactly with
  the integer \<open>minutes * 60\<close>. \<open>normalise a b\<close> scales the fraction \<open>a / b\<close> by
  a power of two into the range from \<open>2 ^ 52\<close> up to \<open>2 ^ 53\<close>, where rounding to
  an integer is rounding to 53 bits; the float is the rounded integer scaled back.
  Elapsed times are differences of \<open>datetime\<close> values, so neither overflow nor
  subnormal numbers arise.
\<close>

definition round_half_even :: "nat \<Rightarrow> nat \<Rightarrow> nat" where
  \<comment> \<open>the integer nearest to \<open>a / b\<close>, a tie going to the even one\<close>
  "round_half_even a b =
     (if b < 2 * (a mod b) \<or> (2 * (a mod b) = b \<and> odd (a div b))
      then a div b + 1 else a div b)"

function normalise :: "nat \<Rightarrow> nat \<Rightarrow> nat \<times> nat" where
  "normalise a b =
     (if a = 0 \<or> b = 0 then (a, b)
      else if a < 2 ^ 52 * b then normalise (2 * a) b
      else if 2 ^ 53 * b \<le> a then normalise a (2 * b)
      else (a, b))"
  by pat_completeness auto
termination
  by (relation "measure (\<lambda>(a, b). (2 ^ 52 * b - a) + (a + 1 - 2 ^ 53 * b))") auto

declare normalise.simps [simp del]

definition true_div_ge :: "int \<Rightarrow> nat \<Rightarrow> int \<Rightarrow> bool" where
  \<comment> \<open>\<open>p / q >= k\<close> for integers \<open>p\<close>, \<open>q > 0\<close> and \<open>k\<close>: with
      \<open>(a, b) = normalise \<bar>p\<bar> q\<close> and \<open>m\<close> the rounding of \<open>a / b\<close>, the float
      \<open>p / q\<close> is \<open>m * p * b / (q * a)\<close>\<close>
  "true_div_ge p q k =
     (if p = 0 then k \<le> 0
      else (case normalise (nat \<bar>p\<bar>) q of
              (a, b) \<Rightarrow> k * int q * int a \<le> int (round_half_even a b) * p * int b))"

definition total_seconds_ge :: "int \<Rightarrow> int \<Rightarrow> bool" where
  \<comment> \<open>\<open>delta.total_seconds() >= k\<close> for a \<open>timedelta\<close> of \<open>us\<close> microseconds\<close>
  "total_seconds_ge us k = true_div_ge us 1000000 k"

subsection \<open>The keeper object\<close>

datatype py_error = ValueError | ZeroDivisionError | IndexError

type_synonym rule_set = "(string \<times> string list) list"

type_synonym timetable = "string \<Rightarrow> int option"

record keeper =
  input_count :: int
  last_executed_time :: timetable
  rules :: "rule_set list"

definition init :: keeper where
  \<comment> \<open>\<open>__init__\<close>, lines 23 to 25\<close>
  "init = \<lparr>input_count = 0, last_executed_time = Map.empty, rules = []\<rparr>"

definition first_rules :: "rule_set \<Rightarrow> string list" where
  \<comment> \<open>\<open>rule_set.get("first", [])\<close>\<close>
  "first_rules rule_set = (case map_of rule_set ''first'' of None \<Rightarrow> [] | Some v \<Rightarrow> v)"

definition int_seg :: "(string \<Rightarrow> int option) \<Rightarrow> string \<Rightarrow> py_error + int" where
  \<comment> \<open>\<open>int(key.split("_")[1])\<close>\<close>
  "int_seg uni key =
     (case py_split CHR ''_'' key of
        _ # s # _ \<Rightarrow> (case py_int uni s of None \<Rightarrow> Inl ValueError | Some n \<Rightarrow> Inr n)
      | _ \<Rightarrow> Inl IndexError)"

definition inputs_rule ::
  "(string \<Rightarrow> int option) \<Rightarrow> int \<Rightarrow> string \<Rightarrow> string list \<Rightarrow> string list \<Rightarrow> py_error + string list" where
  \<comment> \<open>lines 121 to 124\<close>
  "inputs_rule uni count key actions applicable =
     (if startswith key ''every_'' \<and> contains ''_inputs'' key then
        (case int_seg uni key of
           Inl e \<Rightarrow> Inl e
         | Inr n \<Rightarrow>
             if n = 0 then Inl ZeroDivisionError
             else if count mod n = 0 then Inr (applicable @ actions)
             else Inr applicable)
      else Inr applicable)"

definition minutes_rule ::
  "(string \<Rightarrow> int option) \<Rightarrow> int \<Rightarrow> string \<Rightarrow> string list \<Rightarrow> timetable \<Rightarrow> string list
     \<Rightarrow> py_error + (timetable \<times> string list)" where
  \<comment> \<open>lines 127 to 132\<close>
  "minutes_rule uni now key actions lt applicable =
     (if startswith key ''every_'' \<and> contains ''_minutes'' key then
        (case int_seg uni key of
           Inl e \<Rightarrow> Inl e
         | Inr minutes \<Rightarrow>
             (case lt key of
                None \<Rightarrow> Inr (lt(key \<mapsto> now), applicable @ actions)
              | Some last_time \<Rightarrow>
                  if total_seconds_ge (now - last_time) (minutes * 60)
                  then Inr (lt(key \<mapsto> now), applicable @ actions)
                  else Inr (lt, applicable)))
      else Inr (lt, applicable))"

fun items_loop ::
  "(string \<Rightarrow> int option) \<Rightarrow> int \<Rightarrow> int \<Rightarrow> rule_set \<Rightarrow> timetable \<Rightarrow> string list
     \<Rightarrow> timetable \<times> (py_error + string list)" where
  \<comment> \<open>\<open>for key, actions in rule_set.items()\<close>, lines 120 to 132\<close>
  "items_loop uni now count [] lt applicable = (lt, Inr applicable)"
| "items_loop uni now count ((key, actions) # rest) lt applicable =
     (case inputs_rule uni count key actions applicable of
        Inl e \<Rightarrow> (lt, Inl e)
      | Inr applicable1 \<Rightarrow>
          (case minutes_rule uni now key actions lt applicable1 of
             Inl e \<Rightarrow> (lt, Inl e)
           | Inr (lt2, applicable2) \<Rightarrow> items_loop uni now count rest lt2 applicable2))"

fun rule_sets_loop ::
  "(string \<Rightarrow> int option) \<Rightarrow> int \<Rightarrow> int \<Rightarrow> rule_set list \<Rightarrow> timetable \<Rightarrow> string list
     \<Rightarrow> timetable \<times> (py_error + string list)" where
  \<comment> \<open>\<open>for rule_set in self.rules\<close>, lines 113 to 132\<close>
  "rule_sets_loop uni now count [] lt applicable = (lt, Inr applicable)"
| "rule_sets_loop uni now count (rule_set # rest) lt applicable =
     (case items_loop uni now count rule_set lt
             (if count = 1 then applicable @ first_rules rule_set else applicable) of
        (lt1, Inl e) \<Rightarrow> (lt1, Inl e)
      | (lt1, Inr applicable1) \<Rightarrow> rule_sets_loop uni now count rest lt1 applicable1)"

definition get_rules ::
  "(string \<Rightarrow> int option) \<Rightarrow> keeper \<Rightarrow> rule_set list \<Rightarrow> int \<Rightarrow> keeper \<times> (py_error + string list)" where
  \<comment> \<open>lines 103 to 134; \<open>loaded\<close> is what \<open>load_rules\<close> stores in \<open>self.rules\<close>\<close>
  "get_rules uni self loaded now =
     (case rule_sets_loop uni now (input_count self + 1) loaded (last_executed_time self) [] of
        (lt, r) \<Rightarrow>
          (\<lparr>input_count = input_count self + 1, last_executed_time = lt, rules = loaded\<rparr>, r))"

definition reset :: "keeper \<Rightarrow> keeper" where
  \<comment> \<open>lines 136 to 139\<close>
  "reset self = self\<lparr>input_count := 0, last_executed_time := Map.empty\<rparr>"

subsection \<open>The trigger key grammar of the specification\<close>

text \<open>
  \<open>every_<N>_inputs\<close> and \<open>every_<N>_minutes\<close> for a number \<open>N\<close>, written in
  decimal without leading zeros, as \<open>str(N)\<close> prints it and as \<open>add_rule\<close> builds
  the key (lines 175 and 177).
\<close>

definition digit_char :: "nat \<Rightarrow> char" where
  "digit_char d = ''0123456789'' ! d"

fun decimal :: "nat \<Rightarrow> string" where
  "decimal n = (if n < 10 then [digit_char n] else decimal (n div 10) @ [digit_char (n mod 10)])"

declare decimal.simps [simp del]

definition inputs_key :: "nat \<Rightarrow> string" where
  "inputs_key n = ''every_'' @ decimal n @ ''_inputs''"

definition minutes_key :: "nat \<Rightarrow> string" where
  "minutes_key n = ''every_'' @ decimal n @ ''_minutes''"

definition is_digit :: "char \<Rightarrow> bool" where
  "is_digit c = (c \<in> set ''0123456789'')"

subsection \<open>Keys at which the evaluation raises\<close>

text \<open>
  The two conditions under which the loop body of lines 120 to 132 raises: \<open>int\<close>
  rejects the second segment of a key that passed either test, or the segment of an
  \<open>_inputs\<close> key is zero, the divisor of \<open>%\<close>.
\<close>

definition key_raises :: "(string \<Rightarrow> int option) \<Rightarrow> string \<Rightarrow> bool" where
  "key_raises uni key =
     (startswith key ''every_'' \<and>
      ((contains ''_inputs'' key \<and> (case int_seg uni key of Inl e \<Rightarrow> True | Inr n \<Rightarrow> n = 0)) \<or>
       (contains ''_minutes'' key \<and> (case int_seg uni key of Inl e \<Rightarrow> True | Inr n \<Rightarrow> False))))"

definition loaded_ok :: "(string \<Rightarrow> int option) \<Rightarrow> rule_set list \<Rightarrow> bool" where
  "loaded_ok uni loaded = list_all (\<lambda>rule_set. list_all (\<lambda>(key, actions). \<not> key_raises uni key) rule_set) loaded"

subsection \<open>Notions used in the statements\<close>

definition without_key :: "string \<Rightarrow> rule_set \<Rightarrow> rule_set" where
  \<comment> \<open>the document with the entry of one key deleted\<close>
  "without_key key rule_set = filter (\<lambda>(k, actions). k \<noteq> key) rule_set"

definition spec_trigger_key :: "string \<Rightarrow> string \<Rightarrow> bool" where
  \<comment> \<open>the specification's \<open>every_<digits>_<unit>\<close> with a positive number\<close>
  "spec_trigger_key unit key =
     (let digits = takeWhile is_digit (drop 6 key) in
      take 6 key = ''every_'' \<and> digits \<noteq> [] \<and>
      dropWhile is_digit (drop 6 key) = CHR ''_'' # unit \<and>
      parse_digits 0 digits \<noteq> Some 0)"

definition time_key :: "(string \<Rightarrow> int option) \<Rightarrow> string \<Rightarrow> bool" where
  \<comment> \<open>the keys that pass the test of line 127 and whose segment \<open>int\<close> accepts\<close>
  "time_key uni key =
     (startswith key ''every_'' \<and> contains ''_minutes'' key \<and>
      (case int_seg uni key of Inl e \<Rightarrow> False | Inr n \<Rightarrow> True))"

definition key_blocks :: "rule_set \<Rightarrow> nat list \<Rightarrow> string list" where
  \<comment> \<open>the directive lists of a document's keys in key order, the list of the
      \<open>i\<close>-th key repeated \<open>ms ! i\<close> times\<close>
  "key_blocks rule_set ms =
     concat (map (\<lambda>((key, actions), m). concat (replicate m actions)) (zip rule_set ms))"

definition ordered_result :: "int \<Rightarrow> rule_set list \<Rightarrow> nat list list \<Rightarrow> string list" where
  \<comment> \<open>document after document: its \<open>first\<close> directives when the counter is 1, then
      the blocks of its keys\<close>
  "ordered_result count loaded mss =
     concat (map (\<lambda>(rule_set, ms).
                    (if count = 1
                     then (case map_of rule_set ''first'' of None \<Rightarrow> [] | Some v \<Rightarrow> v)
                     else []) @ key_blocks rule_set ms)
                 (zip loaded mss))"

section \<open>Reset\<close>

lemma reset_funpow: "(reset ^^ Suc n) self = reset self"
  by (induction n) (simp_all add: reset_def)

text \<open>
  C6. \<open>reset\<close> sets the counter to 0 and empties the table of last execution times and
  leaves the remaining field (the loaded rules) as it is; any positive number of
  consecutive resets gives the state of one; and \<open>get_rules\<close> after a reset gives the
  result and the state that the first \<open>get_rules\<close> of a newly constructed keeper
  gives, for the same loaded documents and clock reading. The state \<open>self\<close> is
  arbitrary, so it stands for the state after any sequence of calls.
\<close>

theorem reset_clears_and_is_idempotent:
  "reset self = \<lparr>input_count = 0, last_executed_time = Map.empty, rules = rules self\<rparr>
   \<and> (reset ^^ Suc n) self = reset self
   \<and> get_rules uni (reset self) loaded now = get_rules uni init loaded now"
proof -
  have a: "reset self = \<lparr>input_count = 0, last_executed_time = Map.empty, rules = rules self\<rparr>"
    by (simp add: reset_def)
  have c: "get_rules uni (reset self) loaded now = get_rules uni init loaded now"
    by (simp add: get_rules_def reset_def init_def)
  from a reset_funpow c show ?thesis by blast
qed

section \<open>Parsing the keys of the grammar\<close>

lemma digit_char_val: "d < 10 \<Longrightarrow> digit_val (digit_char d) = Some (int d)"
proof -
  assume "d < 10"
  then have "d \<in> {0,1,2,3,4,5,6,7,8,9}" by auto
  then show ?thesis by (auto simp: digit_val_def digit_char_def)
qed

lemma digit_char_is_digit: "d < 10 \<Longrightarrow> is_digit (digit_char d)"
proof -
  assume "d < 10"
  then have "d \<in> {0,1,2,3,4,5,6,7,8,9}" by auto
  then show ?thesis by (auto simp: is_digit_def digit_char_def)
qed

lemma decimal_digits: "c \<in> set (decimal n) \<Longrightarrow> is_digit c"
proof (induction n arbitrary: c rule: decimal.induct)
  case (1 n)
  show ?case
  proof (cases "n < 10")
    case True
    with "1.prems" show ?thesis by (simp add: decimal.simps [of n] digit_char_is_digit)
  next
    case False
    with "1.prems" "1.IH" show ?thesis
      by (auto simp: decimal.simps [of n] digit_char_is_digit)
  qed
qed

lemma decimal_nonempty: "decimal n \<noteq> []"
  by (simp add: decimal.simps [of n])

lemma parse_digits_snoc:
  "parse_digits acc (xs @ [c]) =
     (case parse_digits acc xs of None \<Rightarrow> None
      | Some v \<Rightarrow> (case digit_val c of None \<Rightarrow> None | Some d \<Rightarrow> Some (10 * v + d)))"
  by (induction xs arbitrary: acc) (auto split: option.splits)

lemma parse_digits_decimal: "parse_digits 0 (decimal n) = Some (int n)"
proof (induction n rule: decimal.induct)
  case (1 n)
  show ?case
  proof (cases "n < 10")
    case True
    then show ?thesis by (simp add: decimal.simps [of n] digit_char_val)
  next
    case False
    have "parse_digits 0 (decimal n) =
            (case parse_digits 0 (decimal (n div 10)) of None \<Rightarrow> None
             | Some v \<Rightarrow> (case digit_val (digit_char (n mod 10)) of None \<Rightarrow> None
                  | Some d \<Rightarrow> Some (10 * v + d)))"
      using False by (simp add: decimal.simps [of n] parse_digits_snoc)
    also have "\<dots> = Some (10 * int (n div 10) + int (n mod 10))"
      using False "1.IH" by (simp add: digit_char_val)
    also have "\<dots> = Some (int n)"
    proof -
      have "10 * (int n div 10) + int n mod 10 = int n" by simp
      then show ?thesis by (simp only: zdiv_int zmod_int of_nat_numeral)
    qed
    finally show ?thesis .
  qed
qed

lemma is_digit_facts:
  "is_digit c \<Longrightarrow> \<not> is_space c \<and> c \<noteq> CHR ''_'' \<and> c \<noteq> CHR ''-'' \<and> c \<noteq> CHR ''+'' \<and> c \<noteq> CHR ''m'' \<and> c \<noteq> CHR ''i''"
  by (auto simp: is_digit_def is_space_def)

lemma dropWhile_none: "\<forall>c \<in> set xs. \<not> P c \<Longrightarrow> dropWhile P xs = xs"
  by (cases xs) auto

lemma strip_no_space: "\<forall>c \<in> set s. \<not> is_space c \<Longrightarrow> strip s = s"
proof -
  assume a: "\<forall>c \<in> set s. \<not> is_space c"
  then have b: "\<forall>c \<in> set (rev s). \<not> is_space c" by simp
  show ?thesis
    unfolding strip_def dropWhile_none [OF a] dropWhile_none [OF b] by simp
qed

lemma is_ascii_decimal: "is_ascii (decimal n)"
proof -
  have "\<not> digit7 c" if "c \<in> set (decimal n)" for c
  proof -
    from that have "is_digit c" by (rule decimal_digits)
    then show ?thesis by (auto simp: is_digit_def)
  qed
  then show ?thesis by (simp add: is_ascii_def list_all_iff)
qed

lemma py_int_decimal: "py_int uni (decimal n) = Some (int n)"
proof -
  have s: "strip (decimal n) = decimal n"
    by (rule strip_no_space) (auto dest: decimal_digits is_digit_facts)
  obtain c cs where d: "decimal n = c # cs" using decimal_nonempty [of n] by (cases "decimal n") auto
  then have "is_digit c" using decimal_digits [of c n] by simp
  then have "c \<noteq> CHR ''-''" "c \<noteq> CHR ''+''" using is_digit_facts by auto
  then have "py_int uni (decimal n) = parse_unsigned (decimal n)"
    using s d is_ascii_decimal [of n] by (simp add: py_int_def)
  then show ?thesis by (simp add: parse_unsigned_def decimal_nonempty parse_digits_decimal)
qed

lemma py_split_nonempty: "py_split sep s \<noteq> []"
  by (induction s) (auto split: list.splits)

lemma py_split_until:
  "sep \<notin> set ds \<Longrightarrow> py_split sep (ds @ sep # rest) = ds # py_split sep rest"
  by (induction ds) (auto split: list.splits)

lemma decimal_no_underscore: "CHR ''_'' \<notin> set (decimal n)"
  using decimal_digits is_digit_facts by blast

lemma py_split_every:
  "py_split CHR ''_'' (''every_'' @ ds @ CHR ''_'' # rest)
     = ''every'' # py_split CHR ''_'' (ds @ CHR ''_'' # rest)"
  using py_split_until [of "CHR ''_''" "''every''" "ds @ CHR ''_'' # rest"] by simp

lemma int_seg_grammar:
  "int_seg uni (''every_'' @ decimal n @ CHR ''_'' # rest) = Inr (int n)"
proof -
  have "py_split CHR ''_'' (''every_'' @ decimal n @ CHR ''_'' # rest)
          = ''every'' # decimal n # py_split CHR ''_'' rest"
    unfolding py_split_every by (simp add: py_split_until decimal_no_underscore)
  then show ?thesis by (simp add: int_seg_def py_int_decimal)
qed

lemma int_seg_inputs_key: "int_seg uni (inputs_key n) = Inr (int n)"
  using int_seg_grammar [of uni n "''inputs''"] by (simp add: inputs_key_def)


lemma startswith_inputs_key: "startswith (inputs_key n) ''every_''"
  by (simp add: startswith_def inputs_key_def)


lemma contains_append: "contains sub s \<Longrightarrow> contains sub (pre @ s)"
  by (induction pre) auto

lemma contains_inputs_key: "contains ''_inputs'' (inputs_key n)"
proof -
  have "contains ''_inputs'' ''_inputs''" by (simp add: startswith_def)
  then have "contains ''_inputs'' ((''every_'' @ decimal n) @ ''_inputs'')"
    by (rule contains_append)
  then show ?thesis by (simp add: inputs_key_def)
qed


lemma not_contains_digits:
  assumes "\<forall>c \<in> set ds. is_digit c" and "\<not> contains (CHR ''_'' # x # sub) (CHR ''_'' # rest)"
  shows "\<not> contains (CHR ''_'' # x # sub) (ds @ CHR ''_'' # rest)"
  using assms
proof (induction ds)
  case Nil
  then show ?case by simp
next
  case (Cons d ds)
  then have "d \<noteq> CHR ''_''" using is_digit_facts by auto
  with Cons show ?case by (simp add: startswith_def)
qed

lemma not_contains_minutes_inputs_key: "\<not> contains ''_minutes'' (inputs_key n)"
proof -
  obtain d ds where dd: "decimal n = d # ds"
    using decimal_nonempty [of n] by (cases "decimal n") auto
  then have m: "d \<noteq> CHR ''m''" "d \<noteq> CHR ''_''"
    using decimal_digits [of d n] is_digit_facts by auto
  have all: "\<forall>c \<in> set (decimal n). is_digit c" using decimal_digits by blast
  have base: "\<not> contains ''_minutes'' ''_inputs''" by (simp add: startswith_def)
  have tail: "\<not> contains ''_minutes'' (decimal n @ ''_inputs'')"
    using not_contains_digits [OF all, of "CHR ''m''" "''inutes''" "''inputs''"] base by simp
  have "\<not> startswith (CHR ''_'' # decimal n @ ''_inputs'') ''_minutes''"
    using m dd by (simp add: startswith_def)
  with tail show ?thesis
    by (simp add: inputs_key_def startswith_def)
qed


section \<open>When the evaluation returns\<close>

lemma inputs_rule_Inl: "(\<exists>e. inputs_rule uni count key actions applicable = Inl e) \<Longrightarrow> key_raises uni key"
  by (auto simp: inputs_rule_def key_raises_def split: if_splits sum.splits)

lemma minutes_rule_Inl: "(\<exists>e. minutes_rule uni now key actions lt applicable = Inl e) \<Longrightarrow> key_raises uni key"
  by (auto simp: minutes_rule_def key_raises_def split: if_splits sum.splits option.splits)

lemma key_raises_step:
  "key_raises uni key \<Longrightarrow>
     (\<exists>e. inputs_rule uni count key actions applicable = Inl e) \<or>
     (\<forall>lt app. \<exists>e. minutes_rule uni now key actions lt app = Inl e)"
  by (auto simp: inputs_rule_def minutes_rule_def key_raises_def split: if_splits sum.splits option.splits)

lemma items_loop_returns_iff:
  "(\<exists>lt' res. items_loop uni now count rule_set lt applicable = (lt', Inr res))
     \<longleftrightarrow> (\<forall>key \<in> fst ` set rule_set. \<not> key_raises uni key)"
proof (induction rule_set arbitrary: lt applicable)
  case Nil
  show ?case by simp
next
  case (Cons ka rest)
  obtain key actions where ka: "ka = (key, actions)" by (cases ka)
  show ?case
  proof (cases "key_raises uni key")
    case True
    have "\<exists>e. items_loop uni now count (ka # rest) lt applicable = (lt, Inl e)"
    proof (cases "inputs_rule uni count key actions applicable")
      case (Inl e)
      then show ?thesis by (simp add: ka)
    next
      case (Inr app1)
      with key_raises_step [OF True, of count actions applicable now]
      obtain e where "minutes_rule uni now key actions lt app1 = Inl e" by auto
      with Inr show ?thesis by (simp add: ka)
    qed
    with True show ?thesis by (auto simp: ka)
  next
    case False
    obtain app1 where a1: "inputs_rule uni count key actions applicable = Inr app1"
      using False inputs_rule_Inl [of uni count key actions applicable] by (cases "inputs_rule uni count key actions applicable") auto
    obtain lt2 app2 where a2: "minutes_rule uni now key actions lt app1 = Inr (lt2, app2)"
      using False minutes_rule_Inl [of uni now key actions lt app1] by (cases "minutes_rule uni now key actions lt app1") auto
    have "items_loop uni now count (ka # rest) lt applicable = items_loop uni now count rest lt2 app2"
      by (simp add: ka a1 a2)
    with False Cons.IH [of lt2 app2] show ?thesis by (simp add: ka)
  qed
qed

lemma items_loop_cases:
  obtains (ret) lt' res where "items_loop uni now count rule_set lt applicable = (lt', Inr res)"
  | (err) lt' e where "items_loop uni now count rule_set lt applicable = (lt', Inl e)"
  by (cases "items_loop uni now count rule_set lt applicable") (metis sum.exhaust_sel)

lemma rule_sets_loop_returns_iff:
  "(\<exists>lt' res. rule_sets_loop uni now count loaded lt applicable = (lt', Inr res))
     \<longleftrightarrow> (\<forall>rule_set \<in> set loaded. \<forall>key \<in> fst ` set rule_set. \<not> key_raises uni key)"
proof (induction loaded arbitrary: lt applicable)
  case Nil
  show ?case by simp
next
  case (Cons rs rest)
  let ?app = "if count = 1 then applicable @ first_rules rs else applicable"
  show ?case
  proof (cases rule: items_loop_cases [of uni now count rs lt ?app])
    case (ret lt' res)
    then have ok: "\<forall>key \<in> fst ` set rs. \<not> key_raises uni key"
      using items_loop_returns_iff [of uni now count rs lt ?app] by blast
    have "rule_sets_loop uni now count (rs # rest) lt applicable = rule_sets_loop uni now count rest lt' res"
      using ret by simp
    with ok Cons.IH [of lt' res] show ?thesis by simp
  next
    case (err lt' e)
    then have bad: "\<not> (\<forall>key \<in> fst ` set rs. \<not> key_raises uni key)"
      using items_loop_returns_iff [of uni now count rs lt ?app] by auto
    have "rule_sets_loop uni now count (rs # rest) lt applicable = (lt', Inl e)"
      using err by simp
    with bad show ?thesis by auto
  qed
qed

lemma loaded_ok_iff:
  "loaded_ok uni loaded \<longleftrightarrow> (\<forall>rule_set \<in> set loaded. \<forall>key \<in> fst ` set rule_set. \<not> key_raises uni key)"
  by (simp add: loaded_ok_def list_all_iff case_prod_beta)

lemma get_rules_returns_iff:
  "(\<exists>self' res. get_rules uni self loaded now = (self', Inr res)) \<longleftrightarrow> loaded_ok uni loaded"
proof -
  have "(\<exists>self' res. get_rules uni self loaded now = (self', Inr res)) \<longleftrightarrow>
        (\<exists>lt' res. rule_sets_loop uni now (input_count self + 1) loaded (last_executed_time self) [] = (lt', Inr res))"
    by (auto simp: get_rules_def split: prod.splits)
  then show ?thesis by (simp add: rule_sets_loop_returns_iff loaded_ok_iff)
qed

section \<open>Input-count rules\<close>

lemmas eval_defs = get_rules_def first_rules_def inputs_rule_def minutes_rule_def
  startswith_def int_seg_def py_int_def is_ascii_def strip_def is_space_def parse_unsigned_def
  digit_val_def

lemmas float_defs = total_seconds_ge_def true_div_ge_def normalise.simps round_half_even_def

lemma inputs_key_numerals:
  "inputs_key 0 = ''every_0_inputs''" "inputs_key 2 = ''every_2_inputs''"
  "inputs_key 3 = ''every_3_inputs''" "inputs_key 5 = ''every_5_inputs''"
  by (simp_all add: inputs_key_def decimal.simps digit_char_def)





lemma input_count_get_rules:
  "input_count (fst (get_rules uni self loaded now)) = input_count self + 1"
  by (simp add: get_rules_def split: prod.splits)

lemma input_count_nonneg:
  "0 \<le> input_count init" "0 \<le> input_count (reset self)"
  "0 \<le> input_count self \<Longrightarrow> 0 \<le> input_count (fst (get_rules uni self loaded now))"
  by (simp_all add: init_def reset_def input_count_get_rules)



section \<open>The float comparison\<close>










section \<open>Time-based rules\<close>








lemma int_seg_no_IndexError: "startswith key ''every_'' \<Longrightarrow> int_seg uni key \<noteq> Inl IndexError"
proof -
  assume "startswith key ''every_''"
  then have "take (length ''every_'') key = ''every_''" by (simp only: startswith_def)
  then have "key = ''every_'' @ drop (length ''every_'') key" by (metis append_take_drop_id)
  then obtain r where k: "key = ''every'' @ CHR ''_'' # r" by (metis append_Cons append_Nil append_assoc)
  obtain w ws where "py_split CHR ''_'' r = w # ws"
    using py_split_nonempty [of "CHR ''_''" r] by (cases "py_split CHR ''_'' r") auto
  then have "py_split CHR ''_'' key = ''every'' # w # ws"
    unfolding k using py_split_until [of "CHR ''_''" "''every''" r] by simp
  then show ?thesis by (simp add: int_seg_def split: option.splits)
qed

section \<open>Keys that raise\<close>

lemma key_raises_zero_inputs_key: "key_raises uni (inputs_key 0)"
  by (simp add: key_raises_def startswith_inputs_key contains_inputs_key int_seg_inputs_key)

lemma not_key_raises_inputs_key: "0 < n \<Longrightarrow> \<not> key_raises uni (inputs_key n)"
  by (simp add: key_raises_def startswith_inputs_key contains_inputs_key int_seg_inputs_key
      not_contains_minutes_inputs_key)

text \<open>
  C10. A document with the key \<open>every_0_inputs\<close> makes \<open>get_rules\<close> raise
  \<open>ZeroDivisionError\<close>: the counter is incremented, the table is unchanged and no
  list is returned. So whenever \<open>get_rules\<close> returns a list, every key
  \<open>every_<N>_inputs\<close> of the loaded documents has \<open>N \<ge> 1\<close>.
\<close>

theorem zero_inputs_divisor_raises:
  "get_rules uni self [[(''every_0_inputs'', actions)]] now
     = (\<lparr>input_count = input_count self + 1, last_executed_time = last_executed_time self,
         rules = [[(''every_0_inputs'', actions)]]\<rparr>, Inl ZeroDivisionError)
   \<and> (\<forall>rule_set \<in> set loaded. \<forall>n a.
        (inputs_key n, a) \<in> set rule_set \<longrightarrow>
        (\<exists>self' res. get_rules uni self loaded now = (self', Inr res)) \<longrightarrow> 1 \<le> n)"
proof -
  have a: "get_rules uni self [[(''every_0_inputs'', actions)]] now
     = (\<lparr>input_count = input_count self + 1, last_executed_time = last_executed_time self,
         rules = [[(''every_0_inputs'', actions)]]\<rparr>, Inl ZeroDivisionError)"
    by (simp add: eval_defs)
  have b: "1 \<le> n"
    if "rule_set \<in> set loaded" "(inputs_key n, a) \<in> set rule_set"
      "\<exists>self' res. get_rules uni self loaded now = (self', Inr res)" for rule_set n a
  proof (rule ccontr)
    assume "\<not> 1 \<le> n"
    then have "n = 0" by simp
    from that(3) have "loaded_ok uni loaded" by (simp add: get_rules_returns_iff)
    with that(1,2) have "\<not> key_raises uni (inputs_key n)"
      unfolding loaded_ok_iff by force
    with \<open>n = 0\<close> key_raises_zero_inputs_key show False by simp
  qed
  from a b show ?thesis by blast
qed

theorem zero_inputs_divisor_raises_witness:
  "get_rules (\<lambda>s. None) init [[(''every_0_inputs'', [''X''])]] 0
     = (\<lparr>input_count = 1, last_executed_time = Map.empty,
         rules = [[(''every_0_inputs'', [''X''])]]\<rparr>, Inl ZeroDivisionError)
   \<and> [(''every_2_inputs'', [''Y''])] \<in> set [[(''every_2_inputs'', [''Y''])]]
   \<and> (''every_2_inputs'', [''Y'']) \<in> set [(''every_2_inputs'', [''Y''])]
   \<and> get_rules (\<lambda>s. None) init [[(''every_2_inputs'', [''Y''])]] 0
     = (\<lparr>input_count = 1, last_executed_time = Map.empty,
         rules = [[(''every_2_inputs'', [''Y''])]]\<rparr>, Inr [])
   \<and> (1::nat) \<le> 2"
proof -
  have r: "get_rules (\<lambda>s. None) init [[(''every_2_inputs'', [''Y''])]] 0
     = (\<lparr>input_count = 1, last_executed_time = Map.empty,
         rules = [[(''every_2_inputs'', [''Y''])]]\<rparr>, Inr [])"
    by (simp add: eval_defs init_def)
  from zero_inputs_divisor_raises
         [where uni = "\<lambda>s. None" and self = init and actions = "[''X'']" and now = 0
            and loaded = "[[(''every_2_inputs'', [''Y''])]]"]
  have "get_rules (\<lambda>s. None) init [[(''every_0_inputs'', [''X''])]] 0
     = (\<lparr>input_count = 1, last_executed_time = Map.empty,
         rules = [[(''every_0_inputs'', [''X''])]]\<rparr>, Inl ZeroDivisionError)"
    and "(\<exists>self' res. get_rules (\<lambda>s. None) init [[(''every_2_inputs'', [''Y''])]] 0 = (self', Inr res))
           \<longrightarrow> (1::nat) \<le> 2"
    using inputs_key_numerals(2) by (simp_all add: init_def) 
  with r show ?thesis by simp
qed

text \<open>
  C4, as stated, fails: with \<open>every_abc_inputs\<close> before \<open>every_2_inputs\<close>, call 2
  raises \<open>ValueError\<close> from \<open>int("abc")\<close> and returns no list, so \<open>"Y"\<close> is not
  returned.
\<close>

theorem malformed_key_counterexample:
  "get_rules (\<lambda>s. None) \<lparr>input_count = 1, last_executed_time = Map.empty, rules = []\<rparr>
       [[(''every_abc_inputs'', [''X'']), (''every_2_inputs'', [''Y''])]] 0
     = (\<lparr>input_count = 2, last_executed_time = Map.empty,
         rules = [[(''every_abc_inputs'', [''X'']), (''every_2_inputs'', [''Y''])]]\<rparr>,
        Inl ValueError)"
  by (simp add: eval_defs)

text \<open>
  C4, amended. \<open>get_rules\<close> returns a list exactly when no loaded key raises, that
  is, when every key that starts with \<open>every_\<close> and contains \<open>_inputs\<close> or
  \<open>_minutes\<close> has a second segment that \<open>int\<close> accepts, not zero for an \<open>_inputs\<close>
  key. A key of that shape whose segment \<open>int\<close> rejects is not skipped: the loop stops
  there with \<open>ValueError\<close>, and the keys after it are not evaluated.
\<close>

theorem malformed_key_raises:
  "((\<exists>self' res. get_rules uni self loaded now = (self', Inr res)) \<longleftrightarrow> loaded_ok uni loaded)
   \<and> (startswith key ''every_'' \<and> (contains ''_inputs'' key \<or> contains ''_minutes'' key)
        \<and> int_seg uni key = Inl ValueError \<longrightarrow>
      items_loop uni now count ((key, actions) # rest) lt applicable = (lt, Inl ValueError))"
proof -
  have "items_loop uni now count ((key, actions) # rest) lt applicable = (lt, Inl ValueError)"
    if "startswith key ''every_''" "contains ''_inputs'' key \<or> contains ''_minutes'' key"
      "int_seg uni key = Inl ValueError"
  proof (cases "contains ''_inputs'' key")
    case True
    with that show ?thesis by (simp add: inputs_rule_def)
  next
    case False
    with that show ?thesis by (simp add: inputs_rule_def minutes_rule_def)
  qed
  with get_rules_returns_iff [of uni self loaded now] show ?thesis by blast
qed

text \<open>
  With \<open>every_2_inputs\<close> alone, \<open>"Y"\<close> is returned on call 2; with
  \<open>every_abc_inputs\<close> before it, the loop stops with \<open>ValueError\<close>.
\<close>

theorem malformed_key_raises_witness:
  "startswith ''every_abc_inputs'' ''every_''
   \<and> contains ''_inputs'' ''every_abc_inputs''
   \<and> int_seg (\<lambda>s. None) ''every_abc_inputs'' = Inl ValueError
   \<and> items_loop (\<lambda>s. None) 0 2 [(''every_abc_inputs'', [''X'']), (''every_2_inputs'', [''Y''])] Map.empty []
        = (Map.empty, Inl ValueError)
   \<and> \<not> loaded_ok (\<lambda>s. None) [[(''every_abc_inputs'', [''X'']), (''every_2_inputs'', [''Y''])]]
   \<and> loaded_ok (\<lambda>s. None) [[(''every_2_inputs'', [''Y''])]]
   \<and> get_rules (\<lambda>s. None) \<lparr>input_count = 1, last_executed_time = Map.empty, rules = []\<rparr>
        [[(''every_2_inputs'', [''Y''])]] 0
      = (\<lparr>input_count = 2, last_executed_time = Map.empty,
          rules = [[(''every_2_inputs'', [''Y''])]]\<rparr>, Inr [''Y''])"
proof -
  have h: "startswith ''every_abc_inputs'' ''every_''" "contains ''_inputs'' ''every_abc_inputs''"
    "int_seg (\<lambda>s. None) ''every_abc_inputs'' = Inl ValueError"
    by (simp_all add: eval_defs)
  have g: "get_rules (\<lambda>s. None) \<lparr>input_count = 1, last_executed_time = Map.empty, rules = []\<rparr>
        [[(''every_2_inputs'', [''Y''])]] 0
      = (\<lparr>input_count = 2, last_executed_time = Map.empty,
          rules = [[(''every_2_inputs'', [''Y''])]]\<rparr>, Inr [''Y''])"
    by (simp add: eval_defs)
  have b: "get_rules (\<lambda>s. None) \<lparr>input_count = 1, last_executed_time = Map.empty, rules = []\<rparr>
       [[(''every_abc_inputs'', [''X'']), (''every_2_inputs'', [''Y''])]] 0
     = (\<lparr>input_count = 2, last_executed_time = Map.empty,
         rules = [[(''every_abc_inputs'', [''X'']), (''every_2_inputs'', [''Y''])]]\<rparr>,
        Inl ValueError)"
    by (simp add: eval_defs)
  from malformed_key_raises
         [where uni = "\<lambda>s. None" and self = "\<lparr>input_count = 1, last_executed_time = Map.empty, rules = []\<rparr>"
            and loaded = "[[(''every_2_inputs'', [''Y''])]]" and now = 0] g
  have ok: "loaded_ok (\<lambda>s. None) [[(''every_2_inputs'', [''Y''])]]" by simp
  from malformed_key_raises
         [where uni = "\<lambda>s. None" and self = "\<lparr>input_count = 1, last_executed_time = Map.empty, rules = []\<rparr>"
            and loaded = "[[(''every_abc_inputs'', [''X'']), (''every_2_inputs'', [''Y''])]]"
            and now = 0] b
  have bad: "\<not> loaded_ok (\<lambda>s. None) [[(''every_abc_inputs'', [''X'']), (''every_2_inputs'', [''Y''])]]"
    by simp
  from malformed_key_raises
         [where uni = "\<lambda>s. None" and key = "''every_abc_inputs''" and now = 0 and count = 2 and actions = "[''X'']"
            and rest = "[(''every_2_inputs'', [''Y''])]" and lt = Map.empty and applicable = "[]"] h
  have st: "items_loop (\<lambda>s. None) 0 2 [(''every_abc_inputs'', [''X'']), (''every_2_inputs'', [''Y''])] Map.empty []
        = (Map.empty, Inl ValueError)" by blast
  from h st bad ok g show ?thesis by blast
qed

section \<open>Keys the loop passes over, and the first directives\<close>

lemma spec_trigger_key_grammar:
  assumes "0 < n"
  shows "spec_trigger_key unit (''every_'' @ decimal n @ CHR ''_'' # unit)"
proof -
  have "\<not> is_digit CHR ''_''" by (simp add: is_digit_def)
  then have "takeWhile is_digit (decimal n @ CHR ''_'' # unit) = decimal n"
    using decimal_digits by (simp add: takeWhile_tail)
  moreover have "dropWhile is_digit (decimal n @ CHR ''_'' # unit) = CHR ''_'' # unit"
    using decimal_digits \<open>\<not> is_digit CHR ''_''\<close> by (simp add: dropWhile_append2)
  ultimately show ?thesis
    using assms by (simp add: spec_trigger_key_def decimal_nonempty parse_digits_decimal)
qed

lemma spec_trigger_key_inputs_key: "0 < n \<Longrightarrow> spec_trigger_key ''inputs'' (inputs_key n)"
  using spec_trigger_key_grammar [of n "''inputs''"] by (simp add: inputs_key_def)

lemma spec_trigger_key_minutes_key: "0 < n \<Longrightarrow> spec_trigger_key ''minutes'' (minutes_key n)"
  using spec_trigger_key_grammar [of n "''minutes''"] by (simp add: minutes_key_def)

lemma items_loop_inert:
  assumes "\<not> (startswith key ''every_'' \<and> (contains ''_inputs'' key \<or> contains ''_minutes'' key))"
  shows "items_loop uni now count ((key, actions) # rest) lt applicable
           = items_loop uni now count rest lt applicable"
  using assms by (auto simp: inputs_rule_def minutes_rule_def)

lemma items_loop_without_key:
  assumes "\<not> (startswith key ''every_'' \<and> (contains ''_inputs'' key \<or> contains ''_minutes'' key))"
  shows "items_loop uni now count (without_key key rule_set) lt applicable
           = items_loop uni now count rule_set lt applicable"
proof (induction rule_set arbitrary: lt applicable)
  case Nil
  show ?case by (simp add: without_key_def)
next
  case (Cons ka rest)
  obtain k a where ka: "ka = (k, a)" by (cases ka)
  show ?case
  proof (cases "k = key")
    case True
    have "without_key key (ka # rest) = without_key key rest"
      by (simp add: without_key_def ka True)
    with Cons.IH items_loop_inert [OF assms] show ?thesis
      by (simp add: ka True del: items_loop.simps)
  next
    case False
    have w: "without_key key ((k, a) # rest) = (k, a) # without_key key rest"
      by (simp add: without_key_def False)
    show ?thesis
      unfolding ka w by (simp add: Cons.IH split: sum.splits prod.splits)
  qed
qed

lemma first_rules_without_key:
  "key \<noteq> ''first'' \<Longrightarrow> first_rules (without_key key rule_set) = first_rules rule_set"
proof -
  assume "key \<noteq> ''first''"
  then have "map_of (without_key key rule_set) ''first'' = map_of rule_set ''first''"
    by (induction rule_set) (auto simp: without_key_def)
  then show ?thesis by (simp add: first_rules_def)
qed

lemma first_is_inert:
  "\<not> (startswith ''first'' ''every_'' \<and> (contains ''_inputs'' ''first'' \<or> contains ''_minutes'' ''first''))"
  by (simp add: startswith_def)

lemma rule_sets_loop_without_key:
  assumes "\<not> (startswith key ''every_'' \<and> (contains ''_inputs'' key \<or> contains ''_minutes'' key))"
    and "key \<noteq> ''first'' \<or> count \<noteq> 1"
  shows "rule_sets_loop uni now count (map (without_key key) loaded) lt applicable
           = rule_sets_loop uni now count loaded lt applicable"
proof (induction loaded arbitrary: lt applicable)
  case Nil
  show ?case by simp
next
  case (Cons rs rest)
  have h: "(if count = 1 then applicable @ first_rules (without_key key rs) else applicable)
          = (if count = 1 then applicable @ first_rules rs else applicable)"
    using assms(2) first_rules_without_key [of key rs] by auto
  show ?case
  proof (cases rule: items_loop_cases
      [of uni now count rs lt "if count = 1 then applicable @ first_rules rs else applicable"])
    case (ret lt1 res)
    then show ?thesis
      by (simp add: items_loop_without_key [OF assms(1)] Cons.IH h)
  next
    case (err lt1 e)
    then show ?thesis
      by (simp add: items_loop_without_key [OF assms(1)] h)
  qed
qed

lemma items_loop_extends:
  "items_loop uni now count rule_set lt applicable = (lt', Inr res) \<Longrightarrow> \<exists>post. res = applicable @ post"
proof (induction rule_set arbitrary: lt applicable)
  case Nil
  then show ?case by simp
next
  case (Cons ka rest)
  obtain k a where ka: "ka = (k, a)" by (cases ka)
  from Cons.prems obtain app1 lt2 app2 where
    s: "inputs_rule uni count k a applicable = Inr app1"
       "minutes_rule uni now k a lt app1 = Inr (lt2, app2)"
       "items_loop uni now count rest lt2 app2 = (lt', Inr res)"
    by (auto simp: ka split: sum.splits prod.splits)
  from s(1) have "\<exists>p. app1 = applicable @ p"
    by (auto simp: inputs_rule_def split: if_splits sum.splits)
  moreover from s(2) have "\<exists>p. app2 = app1 @ p"
    by (auto simp: minutes_rule_def split: if_splits sum.splits option.splits)
  moreover from Cons.IH [OF s(3)] have "\<exists>p. res = app2 @ p" .
  ultimately show ?case by auto
qed

lemma rule_sets_loop_extends:
  "rule_sets_loop uni now count loaded lt applicable = (lt', Inr res) \<Longrightarrow> \<exists>post. res = applicable @ post"
proof (induction loaded arbitrary: lt applicable)
  case Nil
  then show ?case by simp
next
  case (Cons rs rest)
  let ?app = "if count = 1 then applicable @ first_rules rs else applicable"
  from Cons.prems obtain lt1 app1 where
    s: "items_loop uni now count rs lt ?app = (lt1, Inr app1)"
       "rule_sets_loop uni now count rest lt1 app1 = (lt', Inr res)"
    by (auto split: sum.splits prod.splits)
  from items_loop_extends [OF s(1)] have "\<exists>p. app1 = applicable @ p" by auto
  moreover from Cons.IH [OF s(2)] have "\<exists>p. res = app1 @ p" .
  ultimately show ?case by auto
qed

lemma rule_sets_loop_first:
  "rule_sets_loop uni now 1 loaded lt applicable = (lt', Inr res) \<Longrightarrow> rule_set \<in> set loaded
     \<Longrightarrow> \<exists>pre post. res = pre @ first_rules rule_set @ post"
proof (induction loaded arbitrary: lt applicable)
  case Nil
  then show ?case by simp
next
  case (Cons rs rest)
  from Cons.prems(1) obtain lt1 app1 where
    s: "items_loop uni now 1 rs lt (applicable @ first_rules rs) = (lt1, Inr app1)"
       "rule_sets_loop uni now 1 rest lt1 app1 = (lt', Inr res)"
    by (auto split: sum.splits prod.splits)
  show ?case
  proof (cases "rule_set = rs")
    case True
    from items_loop_extends [OF s(1)] obtain p where "app1 = applicable @ first_rules rs @ p" by auto
    moreover from rule_sets_loop_extends [OF s(2)] obtain q where "res = app1 @ q" by auto
    ultimately have "res = applicable @ first_rules rule_set @ (p @ q)" using True by simp
    then show ?thesis by blast
  next
    case False
    with Cons.prems(2) have "rule_set \<in> set rest" by simp
    from Cons.IH [OF s(2) this] show ?thesis .
  qed
qed

lemma get_rules_without_key:
  assumes "\<not> (startswith key ''every_'' \<and> (contains ''_inputs'' key \<or> contains ''_minutes'' key))"
    and "key \<noteq> ''first'' \<or> input_count self \<noteq> 0"
  shows "get_rules uni self loaded now =
           (case get_rules uni self (map (without_key key) loaded) now of
              (self', r) \<Rightarrow> (self'\<lparr>rules := loaded\<rparr>, r))"
proof -
  from assms(2) have "key \<noteq> ''first'' \<or> input_count self + 1 \<noteq> 1" by simp
  from rule_sets_loop_without_key [OF assms(1) this]
  show ?thesis by (simp add: get_rules_def split: prod.splits)
qed

lemma rule_sets_loop_first_entry:
  assumes "rule_sets_loop uni now 1 loaded lt applicable = (lt', Inr res)"
    and "rule_set \<in> set loaded" and "map_of rule_set ''first'' = Some v"
  shows "\<exists>pre post. res = pre @ v @ post"
proof -
  from assms(3) have "first_rules rule_set = v" by (simp add: first_rules_def)
  with rule_sets_loop_first [OF assms(1,2)] show ?thesis by simp
qed

lemma get_rules_first_only:
  "get_rules uni self [[(''first'', v)]] now =
     (\<lparr>input_count = input_count self + 1, last_executed_time = last_executed_time self,
       rules = [[(''first'', v)]]\<rparr>,
      Inr (if input_count self = 0 then v else []))"
  by (simp add: get_rules_def first_rules_def inputs_rule_def minutes_rule_def startswith_def)

text \<open>
  C3, as stated, fails: when a loaded key raises, the first call after construction
  returns no list, so the \<open>first\<close> directive \<open>"hi"\<close> is not returned by it; the
  counter is 1 all the same, and the next call, on the repaired document, does not
  return it either.
\<close>

theorem first_call_raises_counterexample:
  "get_rules (\<lambda>s. None) init [[(''first'', [''hi'']), (''every_abc_inputs'', [''X''])]] 0
     = (\<lparr>input_count = 1, last_executed_time = Map.empty,
         rules = [[(''first'', [''hi'']), (''every_abc_inputs'', [''X''])]]\<rparr>, Inl ValueError)
   \<and> get_rules (\<lambda>s. None)
         \<lparr>input_count = 1, last_executed_time = Map.empty,
           rules = [[(''first'', [''hi'']), (''every_abc_inputs'', [''X''])]]\<rparr>
         [[(''first'', [''hi''])]] 0
     = (\<lparr>input_count = 2, last_executed_time = Map.empty, rules = [[(''first'', [''hi''])]]\<rparr>,
        Inr [])"
  by (simp add: eval_defs init_def)

text \<open>
  C3, amended. On the first call after construction or reset (the counter is 0 before
  the call), when no loaded key raises, \<open>get_rules\<close> returns a list that holds the
  whole directive list stored under \<open>first\<close> in every loaded document, each
  document's as one block in list order. On every other call (the counter is not 0
  before it) the result and the state are those of the same call on the documents with
  their \<open>first\<close> entries deleted: the \<open>first\<close> directives contribute nothing until
  the next reset. For a document with the key \<open>first\<close> alone, the result is its
  directive list on the first call and the empty list on every other call.
\<close>

theorem first_rules_only_on_first_call:
  "(input_count self = 0 \<and> loaded_ok uni loaded \<longrightarrow>
      (\<exists>self' res. get_rules uni self loaded now = (self', Inr res) \<and>
         (\<forall>rule_set \<in> set loaded. \<forall>v. map_of rule_set ''first'' = Some v \<longrightarrow>
            (\<exists>pre post. res = pre @ v @ post))))
   \<and> (input_count self \<noteq> 0 \<longrightarrow>
      get_rules uni self loaded now =
        (case get_rules uni self (map (without_key ''first'') loaded) now of
           (self', r) \<Rightarrow> (self'\<lparr>rules := loaded\<rparr>, r)))
   \<and> get_rules uni self [[(''first'', v)]] now =
        (\<lparr>input_count = input_count self + 1, last_executed_time = last_executed_time self,
          rules = [[(''first'', v)]]\<rparr>,
         Inr (if input_count self = 0 then v else []))"
proof -
  have a: "\<exists>self' res. get_rules uni self loaded now = (self', Inr res) \<and>
         (\<forall>rule_set \<in> set loaded. \<forall>v. map_of rule_set ''first'' = Some v \<longrightarrow>
            (\<exists>pre post. res = pre @ v @ post))"
    if "input_count self = 0" "loaded_ok uni loaded"
  proof -
    from that(2) obtain self' res where g: "get_rules uni self loaded now = (self', Inr res)"
      using get_rules_returns_iff [of uni self loaded now] by blast
    have "get_rules uni self loaded now =
            (case rule_sets_loop uni now 1 loaded (last_executed_time self) [] of
               (lt, r) \<Rightarrow> (\<lparr>input_count = 1, last_executed_time = lt, rules = loaded\<rparr>, r))"
      using that(1) by (simp add: get_rules_def)
    with g obtain lt' where
      l: "rule_sets_loop uni now 1 loaded (last_executed_time self) [] = (lt', Inr res)"
      by (auto split: prod.splits)
    have "\<forall>rule_set \<in> set loaded. \<forall>v. map_of rule_set ''first'' = Some v \<longrightarrow>
            (\<exists>pre post. res = pre @ v @ post)"
      using rule_sets_loop_first_entry [OF l] by blast
    with g show ?thesis by blast
  qed
  have b: "get_rules uni self loaded now =
        (case get_rules uni self (map (without_key ''first'') loaded) now of
           (self', r) \<Rightarrow> (self'\<lparr>rules := loaded\<rparr>, r))"
    if "input_count self \<noteq> 0"
    using get_rules_without_key [OF first_is_inert, where self = self and uni = uni
        and loaded = loaded and now = now] that by simp
  from a b get_rules_first_only [of uni self v now] show ?thesis by blast
qed

theorem first_rules_only_on_first_call_witness:
  "input_count init = 0
   \<and> loaded_ok (\<lambda>s. None) [[(''first'', [''hi'', ''ho'']), (''every_2_inputs'', [''even''])]]
   \<and> map_of [(''first'', [''hi'', ''ho'']), (''every_2_inputs'', [''even''])] ''first''
       = Some [''hi'', ''ho'']
   \<and> get_rules (\<lambda>s. None) init [[(''first'', [''hi'', ''ho'']), (''every_2_inputs'', [''even''])]] 0
       = (\<lparr>input_count = 1, last_executed_time = Map.empty,
           rules = [[(''first'', [''hi'', ''ho'']), (''every_2_inputs'', [''even''])]]\<rparr>,
          Inr [''hi'', ''ho''])
   \<and> input_count \<lparr>input_count = 1, last_executed_time = Map.empty, rules = []\<rparr> \<noteq> 0
   \<and> get_rules (\<lambda>s. None) \<lparr>input_count = 1, last_executed_time = Map.empty, rules = []\<rparr>
         [[(''first'', [''hi'', ''ho'']), (''every_2_inputs'', [''even''])]] 0
       = (\<lparr>input_count = 2, last_executed_time = Map.empty,
           rules = [[(''first'', [''hi'', ''ho'']), (''every_2_inputs'', [''even''])]]\<rparr>,
          Inr [''even''])"
proof -
  let ?d = "[[(''first'', [''hi'', ''ho'']), (''every_2_inputs'', [''even''])]]"
  let ?s = "\<lparr>input_count = 1, last_executed_time = Map.empty, rules = []\<rparr>"
  have ok: "loaded_ok (\<lambda>s. None) ?d" by (simp add: loaded_ok_def key_raises_def eval_defs)
  have m: "map_of [(''first'', [''hi'', ''ho'']), (''every_2_inputs'', [''even''])] ''first''
       = Some [''hi'', ''ho'']" by simp
  have g1: "get_rules (\<lambda>s. None) init ?d 0
       = (\<lparr>input_count = 1, last_executed_time = Map.empty, rules = ?d\<rparr>, Inr [''hi'', ''ho''])"
    by (simp add: eval_defs init_def)
  have w: "get_rules (\<lambda>s. None) ?s (map (without_key ''first'') ?d) 0
       = (\<lparr>input_count = 2, last_executed_time = Map.empty,
           rules = [[(''every_2_inputs'', [''even''])]]\<rparr>, Inr [''even''])"
    by (simp add: eval_defs without_key_def)
  from first_rules_only_on_first_call [where uni = "\<lambda>s. None" and self = ?s and loaded = ?d and now = 0 and v = "[]"] w
  have g2: "get_rules (\<lambda>s. None) ?s ?d 0
       = (\<lparr>input_count = 2, last_executed_time = Map.empty, rules = ?d\<rparr>, Inr [''even''])"
    by simp
  from first_rules_only_on_first_call [where uni = "\<lambda>s. None" and self = init and loaded = ?d and now = 0 and v = "[]"] ok
  have "\<exists>self' res. get_rules (\<lambda>s. None) init ?d 0 = (self', Inr res)"
    by (auto simp: init_def)
  with ok m g1 g2 show ?thesis by (simp add: init_def)
qed


text \<open>
  C8, as stated, fails: \<open>every_30_minutes_break\<close> is not \<open>first\<close> and is in
  neither grammar, and yet its directive is returned and it gets an entry in the table.
  The source tests \<open>key.startswith("every_")\<close> and \<open>"_minutes" in key\<close>, not the
  grammar.
\<close>

theorem inert_key_counterexample:
  "''every_30_minutes_break'' \<noteq> ''first''
   \<and> \<not> spec_trigger_key ''inputs'' ''every_30_minutes_break''
   \<and> \<not> spec_trigger_key ''minutes'' ''every_30_minutes_break''
   \<and> get_rules (\<lambda>s. None) init [[(''every_30_minutes_break'', [''rest''])]] 0
       = (\<lparr>input_count = 1, last_executed_time = [''every_30_minutes_break'' \<mapsto> 0],
           rules = [[(''every_30_minutes_break'', [''rest''])]]\<rparr>, Inr [''rest''])"
  by (simp add: spec_trigger_key_def is_digit_def eval_defs init_def)

text \<open>
  C8, amended. A key that does not start with \<open>every_\<close>, or contains neither
  \<open>_inputs\<close> nor \<open>_minutes\<close>, is passed over by the loop: no directive is
  appended, nothing is raised and the table is unchanged. If the key is not
  \<open>first\<close>, result and state of \<open>get_rules\<close> are those of the call on the documents
  with the key deleted.
\<close>

theorem inert_key_contributes_nothing:
  "\<not> (startswith key ''every_'' \<and> (contains ''_inputs'' key \<or> contains ''_minutes'' key)) \<longrightarrow>
     items_loop uni now count ((key, actions) # rest) lt applicable
       = items_loop uni now count rest lt applicable
     \<and> (key \<noteq> ''first'' \<longrightarrow>
          get_rules uni self loaded now =
            (case get_rules uni self (map (without_key key) loaded) now of
               (self', r) \<Rightarrow> (self'\<lparr>rules := loaded\<rparr>, r)))"
  using items_loop_inert [of key uni now count actions rest lt applicable]
    get_rules_without_key [of key self uni loaded now] by blast

theorem inert_key_contributes_nothing_witness:
  "\<not> (startswith ''note'' ''every_'' \<and> (contains ''_inputs'' ''note'' \<or> contains ''_minutes'' ''note''))
   \<and> ''note'' \<noteq> ''first''
   \<and> get_rules (\<lambda>s. None) init [[(''note'', [''N'']), (''every_1_inputs'', [''I''])]] 0
       = (\<lparr>input_count = 1, last_executed_time = Map.empty,
           rules = [[(''note'', [''N'']), (''every_1_inputs'', [''I''])]]\<rparr>, Inr [''I''])"
proof -
  let ?d = "[[(''note'', [''N'']), (''every_1_inputs'', [''I''])]]"
  have h: "\<not> (startswith ''note'' ''every_'' \<and> (contains ''_inputs'' ''note'' \<or> contains ''_minutes'' ''note''))"
    by (simp add: startswith_def)
  have w: "get_rules (\<lambda>s. None) init (map (without_key ''note'') ?d) 0
       = (\<lparr>input_count = 1, last_executed_time = Map.empty,
           rules = [[(''every_1_inputs'', [''I''])]]\<rparr>, Inr [''I''])"
    by (simp add: eval_defs without_key_def init_def)
  from inert_key_contributes_nothing [where uni = "\<lambda>s. None" and key = "''note''" and self = init and loaded = ?d and now = 0] h w
  have "get_rules (\<lambda>s. None) init ?d 0
       = (\<lparr>input_count = 1, last_executed_time = Map.empty, rules = ?d\<rparr>, Inr [''I''])"
    by simp
  with h show ?thesis by simp
qed

section \<open>The table of last execution times\<close>

lemma minutes_rule_Inr:
  assumes "minutes_rule uni now key actions lt applicable = Inr (lt2, app2)"
  shows "(lt2 = lt \<and> app2 = applicable) \<or>
         (lt2 = lt(key \<mapsto> now) \<and> app2 = applicable @ actions \<and> time_key uni key)"
  using assms
  by (auto simp: minutes_rule_def time_key_def split: if_splits sum.splits option.splits)

lemma items_loop_changed:
  assumes "items_loop uni now count rule_set lt applicable = (lt', r)" and "lt' key \<noteq> lt key"
  shows "time_key uni key \<and> lt' key = Some now \<and>
         (\<exists>actions. (key, actions) \<in> set rule_set \<and>
            (\<forall>res. r = Inr res \<longrightarrow> (\<exists>pre post. res = pre @ actions @ post)))"
  using assms
proof (induction rule_set arbitrary: lt applicable)
  case Nil
  then show ?case by simp
next
  case (Cons ka rest)
  obtain k a where ka: "ka = (k, a)" by (cases ka)
  from Cons.prems obtain app1 lt2 app2 where
    s: "inputs_rule uni count k a applicable = Inr app1"
       "minutes_rule uni now k a lt app1 = Inr (lt2, app2)"
       "items_loop uni now count rest lt2 app2 = (lt', r)"
    by (auto simp: ka split: sum.splits prod.splits)
  show ?case
  proof (cases "lt' key = lt2 key")
    case False
    from Cons.IH [OF s(3) False] show ?thesis by auto
  next
    case True
    with Cons.prems(2) have ne: "lt2 key \<noteq> lt key" by simp
    with minutes_rule_Inr [OF s(2)]
    have f: "lt2 = lt(k \<mapsto> now)" "app2 = app1 @ a" "time_key uni k" by auto
    from ne f(1) have kk: "key = k" by (auto split: if_splits)
    have "\<exists>pre post. res = pre @ a @ post" if "r = Inr res" for res
    proof -
      from s(3) that items_loop_extends obtain q where "res = app2 @ q" by blast
      with f(2) have "res = app1 @ a @ q" by simp
      then show ?thesis by blast
    qed
    with f kk True show ?thesis by (auto simp: ka)
  qed
qed

lemma rule_sets_loop_changed:
  assumes "rule_sets_loop uni now count loaded lt applicable = (lt', r)" and "lt' key \<noteq> lt key"
  shows "time_key uni key \<and> lt' key = Some now \<and>
         (\<exists>rule_set \<in> set loaded. \<exists>actions. (key, actions) \<in> set rule_set \<and>
            (\<forall>res. r = Inr res \<longrightarrow> (\<exists>pre post. res = pre @ actions @ post)))"
  using assms
proof (induction loaded arbitrary: lt applicable)
  case Nil
  then show ?case by simp
next
  case (Cons rs rest)
  let ?app = "if count = 1 then applicable @ first_rules rs else applicable"
  show ?case
  proof (cases rule: items_loop_cases [of uni now count rs lt ?app])
    case (err lt1 e)
    with Cons.prems(1) have eq: "lt' = lt1" "r = Inl e" by auto
    from items_loop_changed [OF err] Cons.prems(2) eq
    show ?thesis by auto
  next
    case (ret lt1 app1)
    with Cons.prems(1) have rest: "rule_sets_loop uni now count rest lt1 app1 = (lt', r)" by simp
    show ?thesis
    proof (cases "lt' key = lt1 key")
      case False
      from Cons.IH [OF rest False] show ?thesis by auto
    next
      case True
      with Cons.prems(2) have "lt1 key \<noteq> lt key" by simp
      from items_loop_changed [OF ret this] obtain actions where
        a: "time_key uni key" "lt1 key = Some now" "(key, actions) \<in> set rs"
           "\<exists>pre post. app1 = pre @ actions @ post" by auto
      have "\<exists>pre post. res = pre @ actions @ post" if "r = Inr res" for res
      proof -
        from rest that rule_sets_loop_extends obtain q where "res = app1 @ q" by blast
        with a(4) obtain pre post where "res = pre @ actions @ (post @ q)" by auto
        then show ?thesis by blast
      qed
      with a True show ?thesis by auto
    qed
  qed
qed

text \<open>
  C9, as stated, fails: \<open>every_5_minutes_old\<close> is not a key of the grammar
  \<open>every_<N>_minutes\<close>, and the table holds an entry for it after one call.
\<close>

theorem time_table_counterexample:
  "\<not> spec_trigger_key ''minutes'' ''every_5_minutes_old''
   \<and> last_executed_time (fst (get_rules (\<lambda>s. None) init [[(''every_5_minutes_old'', [''M''])]] 7))
        ''every_5_minutes_old'' = Some 7"
  by (simp add: spec_trigger_key_def is_digit_def eval_defs init_def)

text \<open>
  C9, amended. The table is empty after construction and after \<open>reset\<close>. An entry
  that \<open>get_rules\<close> changes belongs to a key that the source treats as time-based
  (it starts with \<open>every_\<close>, contains \<open>_minutes\<close>, and \<open>int\<close> accepts its second
  segment), the new entry is the clock reading of this call, and the key stands in a
  loaded document with directives that this call appended: when the call returns a
  list, they are a block of it. So a table that holds only such keys holds only such
  keys after the call.
\<close>

theorem time_table_invariant:
  "last_executed_time init = Map.empty
   \<and> last_executed_time (reset self) = Map.empty
   \<and> (get_rules uni self loaded now = (self', r) \<longrightarrow>
        (\<forall>key. last_executed_time self' key \<noteq> last_executed_time self key \<longrightarrow>
           time_key uni key \<and> last_executed_time self' key = Some now \<and>
           (\<exists>rule_set \<in> set loaded. \<exists>actions. (key, actions) \<in> set rule_set \<and>
              (\<forall>res. r = Inr res \<longrightarrow> (\<exists>pre post. res = pre @ actions @ post))))
        \<and> ((\<forall>key \<in> dom (last_executed_time self). time_key uni key) \<longrightarrow>
             (\<forall>key \<in> dom (last_executed_time self'). time_key uni key)))"
proof -
  have ch: "time_key uni key \<and> last_executed_time self' key = Some now \<and>
           (\<exists>rule_set \<in> set loaded. \<exists>actions. (key, actions) \<in> set rule_set \<and>
              (\<forall>res. r = Inr res \<longrightarrow> (\<exists>pre post. res = pre @ actions @ post)))"
    if g: "get_rules uni self loaded now = (self', r)"
      and ne: "last_executed_time self' key \<noteq> last_executed_time self key" for key
  proof -
    from g have "rule_sets_loop uni now (input_count self + 1) loaded (last_executed_time self) []
                   = (last_executed_time self', r)"
      by (auto simp: get_rules_def split: prod.splits)
    from rule_sets_loop_changed [OF this ne] show ?thesis .
  qed
  have inv: "\<forall>key \<in> dom (last_executed_time self'). time_key uni key"
    if g: "get_rules uni self loaded now = (self', r)"
      and i: "\<forall>key \<in> dom (last_executed_time self). time_key uni key"
  proof
    fix key assume d: "key \<in> dom (last_executed_time self')"
    show "time_key uni key"
    proof (cases "last_executed_time self' key = last_executed_time self key")
      case True
      with d have "key \<in> dom (last_executed_time self)" by (auto simp: dom_def)
      with i show ?thesis by blast
    next
      case False
      from ch [OF g False] show ?thesis by blast
    qed
  qed
  have "last_executed_time init = Map.empty" by (simp add: init_def)
  moreover have "last_executed_time (reset self) = Map.empty" by (simp add: reset_def)
  ultimately show ?thesis using ch inv by blast
qed

theorem time_table_invariant_witness:
  "get_rules (\<lambda>s. None) init [[(''every_5_minutes'', [''M'']), (''every_2_inputs'', [''I''])]] 7
     = (\<lparr>input_count = 1, last_executed_time = [''every_5_minutes'' \<mapsto> 7],
         rules = [[(''every_5_minutes'', [''M'']), (''every_2_inputs'', [''I''])]]\<rparr>, Inr [''M''])
   \<and> [''every_5_minutes'' \<mapsto> 7] ''every_5_minutes'' \<noteq> last_executed_time init ''every_5_minutes''
   \<and> dom (last_executed_time init) = {}
   \<and> time_key (\<lambda>s. None) ''every_5_minutes''
   \<and> dom [''every_5_minutes'' \<mapsto> (7::int)] = {''every_5_minutes''}"
proof -
  let ?d = "[[(''every_5_minutes'', [''M'']), (''every_2_inputs'', [''I''])]]"
  let ?s = "\<lparr>input_count = 1, last_executed_time = [''every_5_minutes'' \<mapsto> 7], rules = ?d\<rparr>"
  have g: "get_rules (\<lambda>s. None) init ?d 7 = (?s, Inr [''M''])"
    by (simp add: eval_defs init_def)
  have ne: "last_executed_time ?s ''every_5_minutes'' \<noteq> last_executed_time init ''every_5_minutes''"
    by (simp add: init_def)
  have i: "\<forall>key \<in> dom (last_executed_time init). time_key (\<lambda>s. None) key" by (simp add: init_def)
  from time_table_invariant [where uni = "\<lambda>s. None" and self = init and loaded = ?d and now = 7 and self' = ?s
      and r = "Inr [''M'']"] g ne i
  have "time_key (\<lambda>s. None) ''every_5_minutes''" "\<forall>key \<in> dom (last_executed_time ?s). time_key (\<lambda>s. None) key"
    by blast+
  with g ne show ?thesis by (simp add: init_def)
qed

section \<open>The order of the result\<close>

lemma key_blocks_Cons:
  "key_blocks ((key, actions) # rest) (m # ms) = concat (replicate m actions) @ key_blocks rest ms"
  by (simp add: key_blocks_def)

lemma ordered_result_Cons:
  "ordered_result count (rule_set # rest) (ms # mss) =
     (if count = 1 then first_rules rule_set else []) @ key_blocks rule_set ms
       @ ordered_result count rest mss"
  by (simp add: ordered_result_def first_rules_def)

lemma inputs_rule_block:
  "inputs_rule uni count key actions applicable = Inr app1
     \<Longrightarrow> \<exists>i\<le>1. app1 = applicable @ concat (replicate i actions)"
proof -
  assume "inputs_rule uni count key actions applicable = Inr app1"
  then have "app1 = applicable @ concat (replicate 0 actions)
             \<or> app1 = applicable @ concat (replicate 1 actions)"
    by (auto simp: inputs_rule_def split: if_splits sum.splits)
  then show ?thesis by (metis le_numeral_extra(4) zero_le)
qed

lemma minutes_rule_block:
  "minutes_rule uni now key actions lt app1 = Inr (lt2, app2)
     \<Longrightarrow> \<exists>j\<le>1. app2 = app1 @ concat (replicate j actions)"
proof -
  assume "minutes_rule uni now key actions lt app1 = Inr (lt2, app2)"
  then have "app2 = app1 @ concat (replicate 0 actions)
             \<or> app2 = app1 @ concat (replicate 1 actions)"
    by (auto simp: minutes_rule_def split: if_splits sum.splits option.splits)
  then show ?thesis by (metis le_numeral_extra(4) zero_le)
qed

lemma items_loop_blocks:
  "items_loop uni now count rule_set lt applicable = (lt', Inr res)
     \<Longrightarrow> \<exists>ms. length ms = length rule_set \<and> list_all (\<lambda>m. m \<le> 2) ms
              \<and> res = applicable @ key_blocks rule_set ms"
proof (induction rule_set arbitrary: lt applicable)
  case Nil
  then show ?case by (simp add: key_blocks_def)
next
  case (Cons ka rest)
  obtain k a where ka: "ka = (k, a)" by (cases ka)
  from Cons.prems obtain app1 lt2 app2 where
    s: "inputs_rule uni count k a applicable = Inr app1"
       "minutes_rule uni now k a lt app1 = Inr (lt2, app2)"
       "items_loop uni now count rest lt2 app2 = (lt', Inr res)"
    by (auto simp: ka split: sum.splits prod.splits)
  from inputs_rule_block [OF s(1)] obtain i where
    i: "i \<le> 1" "app1 = applicable @ concat (replicate i a)" by blast
  from minutes_rule_block [OF s(2)] obtain j where
    j: "j \<le> 1" "app2 = app1 @ concat (replicate j a)" by blast
  from Cons.IH [OF s(3)] obtain ms where
    ms: "length ms = length rest" "list_all (\<lambda>m. m \<le> 2) ms" "res = app2 @ key_blocks rest ms"
    by blast
  have "app2 = applicable @ concat (replicate (i + j) a)"
    using i(2) j(2) by (simp add: replicate_add)
  with ms(3) have "res = applicable @ key_blocks ((k, a) # rest) ((i + j) # ms)"
    by (simp add: key_blocks_Cons)
  moreover have "length ((i + j) # ms) = length (ka # rest)" using ms(1) by simp
  moreover have "list_all (\<lambda>m. m \<le> 2) ((i + j) # ms)" using i(1) j(1) ms(2) by simp
  ultimately show ?case unfolding ka by blast
qed

lemma rule_sets_loop_blocks:
  "rule_sets_loop uni now count loaded lt applicable = (lt', Inr res)
     \<Longrightarrow> \<exists>mss. list_all2 (\<lambda>rule_set ms. length ms = length rule_set \<and> list_all (\<lambda>m. m \<le> 2) ms)
                     loaded mss
              \<and> res = applicable @ ordered_result count loaded mss"
proof (induction loaded arbitrary: lt applicable)
  case Nil
  then show ?case by (simp add: ordered_result_def)
next
  case (Cons rs rest)
  let ?app = "if count = 1 then applicable @ first_rules rs else applicable"
  from Cons.prems obtain lt1 app1 where
    s: "items_loop uni now count rs lt ?app = (lt1, Inr app1)"
       "rule_sets_loop uni now count rest lt1 app1 = (lt', Inr res)"
    by (auto split: sum.splits prod.splits)
  from items_loop_blocks [OF s(1)] obtain ms where
    ms: "length ms = length rs" "list_all (\<lambda>m. m \<le> 2) ms" "app1 = ?app @ key_blocks rs ms"
    by blast
  from Cons.IH [OF s(2)] obtain mss where
    mss: "list_all2 (\<lambda>rule_set ms. length ms = length rule_set \<and> list_all (\<lambda>m. m \<le> 2) ms) rest mss"
      "res = app1 @ ordered_result count rest mss"
    by blast
  have "res = applicable @ ordered_result count (rs # rest) (ms # mss)"
    using ms(3) mss(2) by (simp add: ordered_result_Cons)
  moreover have "list_all2 (\<lambda>rule_set ms. length ms = length rule_set \<and> list_all (\<lambda>m. m \<le> 2) ms)
                   (rs # rest) (ms # mss)"
    using ms(1,2) mss(1) by simp
  ultimately show ?case by blast
qed

text \<open>
  C5, as stated, fails: in a document that lists \<open>every_1_minutes\<close> before
  \<open>every_1_inputs\<close>, the time-based directive comes before the input-count
  directive. One loop (lines 120 to 132) applies both tests to each key in turn.
\<close>

theorem result_order_counterexample:
  "get_rules (\<lambda>s. None) init [[(''every_1_minutes'', [''M'']), (''every_1_inputs'', [''I''])]] 0
     = (\<lparr>input_count = 1, last_executed_time = [''every_1_minutes'' \<mapsto> 0],
         rules = [[(''every_1_minutes'', [''M'']), (''every_1_inputs'', [''I''])]]\<rparr>,
        Inr [''M'', ''I''])"
  by (simp add: eval_defs init_def)

text \<open>
  C5, amended. A returned list is built document after document in load order; within
  a document it holds the \<open>first\<close> directives (when the counter is 1), then one block
  for each key in key order, input-count and time-based keys as the document orders
  them; the block of a key is its directive list in list order, zero, one or two times
  (two when a key passes both tests).
\<close>

theorem result_order:
  "get_rules uni self loaded now = (self', Inr res) \<longrightarrow>
     (\<exists>mss. list_all2 (\<lambda>rule_set ms. length ms = length rule_set \<and> list_all (\<lambda>m. m \<le> 2) ms)
               loaded mss
            \<and> res = ordered_result (input_count self + 1) loaded mss)"
proof
  assume "get_rules uni self loaded now = (self', Inr res)"
  then obtain lt' where
    "rule_sets_loop uni now (input_count self + 1) loaded (last_executed_time self) [] = (lt', Inr res)"
    by (auto simp: get_rules_def split: prod.splits)
  from rule_sets_loop_blocks [OF this] show
    "\<exists>mss. list_all2 (\<lambda>rule_set ms. length ms = length rule_set \<and> list_all (\<lambda>m. m \<le> 2) ms)
               loaded mss
            \<and> res = ordered_result (input_count self + 1) loaded mss"
    by simp
qed

theorem result_order_witness:
  "get_rules (\<lambda>s. None) init [[(''first'', [''hi'']), (''every_1_minutes'', [''M'']), (''every_1_inputs'', [''I''])]] 0
     = (\<lparr>input_count = 1, last_executed_time = [''every_1_minutes'' \<mapsto> 0],
         rules = [[(''first'', [''hi'']), (''every_1_minutes'', [''M'']), (''every_1_inputs'', [''I''])]]\<rparr>,
        Inr [''hi'', ''M'', ''I''])
   \<and> (\<exists>mss. [''hi'', ''M'', ''I''] =
          ordered_result 1
            [[(''first'', [''hi'']), (''every_1_minutes'', [''M'']), (''every_1_inputs'', [''I''])]] mss)"
proof -
  let ?d = "[[(''first'', [''hi'']), (''every_1_minutes'', [''M'']), (''every_1_inputs'', [''I''])]]"
  let ?s = "\<lparr>input_count = 1, last_executed_time = [''every_1_minutes'' \<mapsto> 0], rules = ?d\<rparr>"
  have g: "get_rules (\<lambda>s. None) init ?d 0 = (?s, Inr [''hi'', ''M'', ''I''])"
    by (simp add: eval_defs init_def)
  from result_order [where uni = "\<lambda>s. None" and self = init and loaded = ?d and now = 0 and self' = ?s
      and res = "[''hi'', ''M'', ''I'']"] g
  have "\<exists>mss. [''hi'', ''M'', ''I''] = ordered_result (input_count init + 1) ?d mss" by blast
  then have "\<exists>mss. [''hi'', ''M'', ''I''] = ordered_result 1 ?d mss" by (simp add: init_def)
  with g show ?thesis by blast
qed

section \<open>Several documents\<close>

lemma inputs_rule_prepend:
  "inputs_rule uni count key actions (pre @ x) = map_sum id ((@) pre) (inputs_rule uni count key actions x)"
  by (simp add: inputs_rule_def split: sum.splits)

lemma minutes_rule_prepend:
  "minutes_rule uni now key actions lt (pre @ x)
     = map_sum id (apsnd ((@) pre)) (minutes_rule uni now key actions lt x)"
  by (simp add: minutes_rule_def split: sum.splits option.splits)

lemma items_loop_prepend:
  "items_loop uni now count rule_set lt (pre @ x)
     = apsnd (map_sum id ((@) pre)) (items_loop uni now count rule_set lt x)"
proof (induction rule_set arbitrary: lt x)
  case Nil
  show ?case by simp
next
  case (Cons ka rest)
  obtain k a where ka: "ka = (k, a)" by (cases ka)
  show ?case
  proof (cases "inputs_rule uni count k a x")
    case (Inl e)
    then show ?thesis by (simp add: ka inputs_rule_prepend)
  next
    case (Inr x1)
    note i = this
    show ?thesis
    proof (cases "minutes_rule uni now k a lt x1")
      case (Inl e)
      with i show ?thesis by (simp add: ka inputs_rule_prepend minutes_rule_prepend)
    next
      case (Inr p)
      obtain lt2 x2 where "p = (lt2, x2)" by (cases p)
      with i Inr show ?thesis
        by (simp add: ka inputs_rule_prepend minutes_rule_prepend Cons.IH)
    qed
  qed
qed

lemma rule_sets_loop_prepend:
  "rule_sets_loop uni now count loaded lt (pre @ x)
     = apsnd (map_sum id ((@) pre)) (rule_sets_loop uni now count loaded lt x)"
proof (induction loaded arbitrary: lt x)
  case Nil
  show ?case by simp
next
  case (Cons rs rest)
  let ?x = "if count = 1 then x @ first_rules rs else x"
  have e: "(if count = 1 then (pre @ x) @ first_rules rs else pre @ x) = pre @ ?x" by simp
  show ?case
  proof (cases rule: items_loop_cases [of uni now count rs lt ?x])
    case (ret lt1 res)
    then show ?thesis
      unfolding rule_sets_loop.simps e items_loop_prepend by (simp add: Cons.IH)
  next
    case (err lt1 e1)
    then show ?thesis
      unfolding rule_sets_loop.simps e items_loop_prepend by simp
  qed
qed

lemma rule_sets_loop_append:
  "rule_sets_loop uni now count (ds1 @ ds2) lt applicable =
     (case rule_sets_loop uni now count ds1 lt applicable of
        (lt1, Inl e) \<Rightarrow> (lt1, Inl e)
      | (lt1, Inr app1) \<Rightarrow> rule_sets_loop uni now count ds2 lt1 app1)"
proof (induction ds1 arbitrary: lt applicable)
  case Nil
  show ?case by simp
next
  case (Cons rs rest)
  show ?case
  proof (cases rule: items_loop_cases
      [of uni now count rs lt "if count = 1 then applicable @ first_rules rs else applicable"])
    case (ret lt1 res)
    then show ?thesis by (simp add: Cons.IH)
  next
    case (err lt1 e1)
    then show ?thesis by simp
  qed
qed

lemma minutes_rule_agree:
  assumes "lt1 key = lt2 key"
  shows "(\<exists>e. minutes_rule uni now key actions lt1 applicable = Inl e
            \<and> minutes_rule uni now key actions lt2 applicable = Inl e)
       \<or> (\<exists>app2. minutes_rule uni now key actions lt1 applicable = Inr (lt1, app2)
            \<and> minutes_rule uni now key actions lt2 applicable = Inr (lt2, app2))
       \<or> (\<exists>app2. minutes_rule uni now key actions lt1 applicable = Inr (lt1(key \<mapsto> now), app2)
            \<and> minutes_rule uni now key actions lt2 applicable = Inr (lt2(key \<mapsto> now), app2))"
  using assms by (auto simp: minutes_rule_def split: sum.splits option.splits)

lemma items_loop_agree:
  assumes "fst ` set rule_set \<subseteq> K" and "\<forall>key \<in> K. lt1 key = lt2 key"
  shows "snd (items_loop uni now count rule_set lt1 applicable)
           = snd (items_loop uni now count rule_set lt2 applicable)
         \<and> (\<forall>key \<in> K. fst (items_loop uni now count rule_set lt1 applicable) key
                        = fst (items_loop uni now count rule_set lt2 applicable) key)"
  using assms
proof (induction rule_set arbitrary: lt1 lt2 applicable)
  case Nil
  then show ?case by simp
next
  case (Cons ka rest)
  obtain k a where ka: "ka = (k, a)" by (cases ka)
  from Cons.prems have kK: "k \<in> K" and sub: "fst ` set rest \<subseteq> K" by (auto simp: ka)
  show ?case
  proof (cases "inputs_rule uni count k a applicable")
    case (Inl e)
    with Cons.prems(2) show ?thesis by (simp add: ka)
  next
    case (Inr app1)
    from kK Cons.prems(2) have "lt1 k = lt2 k" by blast
    with minutes_rule_agree [where ?lt1.0 = lt1 and ?lt2.0 = lt2 and key = k and now = now
        and actions = a and applicable = app1]
    consider (err) e where "minutes_rule uni now k a lt1 app1 = Inl e"
        "minutes_rule uni now k a lt2 app1 = Inl e"
      | (same) app2 where "minutes_rule uni now k a lt1 app1 = Inr (lt1, app2)"
        "minutes_rule uni now k a lt2 app1 = Inr (lt2, app2)"
      | (upd) app2 where "minutes_rule uni now k a lt1 app1 = Inr (lt1(k \<mapsto> now), app2)"
        "minutes_rule uni now k a lt2 app1 = Inr (lt2(k \<mapsto> now), app2)"
      by blast
    then show ?thesis
    proof cases
      case err
      with Inr Cons.prems(2) show ?thesis by (simp add: ka)
    next
      case same
      with Inr Cons.IH [OF sub Cons.prems(2), of app2] show ?thesis by (simp add: ka)
    next
      case upd
      from Cons.prems(2) have "\<forall>key \<in> K. (lt1(k \<mapsto> now)) key = (lt2(k \<mapsto> now)) key" by simp
      from Cons.IH [OF sub this, of app2] show ?thesis
        by (simp only: ka items_loop.simps Inr upd sum.case prod.case) blast
    qed
  qed
qed

lemma rule_sets_loop_agree:
  assumes "\<forall>rule_set \<in> set loaded. fst ` set rule_set \<subseteq> K" and "\<forall>key \<in> K. lt1 key = lt2 key"
  shows "snd (rule_sets_loop uni now count loaded lt1 applicable)
           = snd (rule_sets_loop uni now count loaded lt2 applicable)
         \<and> (\<forall>key \<in> K. fst (rule_sets_loop uni now count loaded lt1 applicable) key
                        = fst (rule_sets_loop uni now count loaded lt2 applicable) key)"
  using assms
proof (induction loaded arbitrary: lt1 lt2 applicable)
  case Nil
  then show ?case by simp
next
  case (Cons rs rest)
  let ?app = "if count = 1 then applicable @ first_rules rs else applicable"
  from Cons.prems(1) have sub: "fst ` set rs \<subseteq> K"
    and subs: "\<forall>rule_set \<in> set rest. fst ` set rule_set \<subseteq> K" by simp_all
  obtain t1 r1 where i1: "items_loop uni now count rs lt1 ?app = (t1, r1)"
    by (cases "items_loop uni now count rs lt1 ?app")
  obtain t2 r2 where i2: "items_loop uni now count rs lt2 ?app = (t2, r2)"
    by (cases "items_loop uni now count rs lt2 ?app")
  from items_loop_agree [OF sub Cons.prems(2), of uni now count ?app] i1 i2
  have r: "r2 = r1" and t: "\<forall>key \<in> K. t1 key = t2 key" by simp_all
  note j2 = i2 [unfolded r]
  show ?case
  proof (cases r1)
    case (Inl e)
    with i1 j2 t show ?thesis by simp
  next
    case (Inr app1)
    with i1 j2 Cons.IH [OF subs t, of app1] show ?thesis by simp
  qed
qed

lemma get_rules_append:
  "get_rules uni self (ds1 @ ds2) now =
     (case get_rules uni self ds1 now of
        (self1, Inl e) \<Rightarrow> (self1\<lparr>rules := ds1 @ ds2\<rparr>, Inl e)
      | (self1, Inr res1) \<Rightarrow>
          (case get_rules uni (self1\<lparr>input_count := input_count self\<rparr>) ds2 now of
             (self2, Inl e) \<Rightarrow> (self2\<lparr>rules := ds1 @ ds2\<rparr>, Inl e)
           | (self2, Inr res2) \<Rightarrow> (self2\<lparr>rules := ds1 @ ds2\<rparr>, Inr (res1 @ res2))))"
proof -
  let ?c = "input_count self + 1"
  obtain lt1 r1 where l1: "rule_sets_loop uni now ?c ds1 (last_executed_time self) [] = (lt1, r1)"
    by (cases "rule_sets_loop uni now ?c ds1 (last_executed_time self) []")
  show ?thesis
  proof (cases r1)
    case (Inl e)
    with l1 show ?thesis by (simp add: get_rules_def rule_sets_loop_append)
  next
    case (Inr res1)
    obtain lt2 r2 where l2: "rule_sets_loop uni now ?c ds2 lt1 [] = (lt2, r2)"
      by (cases "rule_sets_loop uni now ?c ds2 lt1 []")
    have "rule_sets_loop uni now ?c ds2 lt1 (res1 @ []) = (lt2, map_sum id ((@) res1) r2)"
      unfolding rule_sets_loop_prepend l2 by simp
    then have "rule_sets_loop uni now ?c ds2 lt1 res1 = (lt2, map_sum id ((@) res1) r2)" by simp
    with l1 l2 Inr show ?thesis
      by (cases r2) (simp_all add: get_rules_def rule_sets_loop_append)
  qed
qed

lemma get_rules_disjoint:
  assumes dis: "\<forall>rs1 \<in> set ds1. \<forall>rs2 \<in> set ds2. \<forall>key \<in> fst ` set rs1 \<inter> fst ` set rs2. \<not> time_key uni key"
    and g1: "get_rules uni self ds1 now = (self1, Inr res1)"
    and g2: "get_rules uni self ds2 now = (self2, Inr res2)"
  shows "snd (get_rules uni self (ds1 @ ds2) now) = Inr (res1 @ res2)"
proof -
  let ?c = "input_count self + 1"
  let ?lt = "last_executed_time self"
  let ?K = "\<Union>rs2 \<in> set ds2. fst ` set rs2"
  from g1 obtain lt1 where l1: "rule_sets_loop uni now ?c ds1 ?lt [] = (lt1, Inr res1)"
    and s1: "self1 = \<lparr>input_count = ?c, last_executed_time = lt1, rules = ds1\<rparr>"
    by (auto simp: get_rules_def split: prod.splits)
  from g2 obtain lt2 where l2: "rule_sets_loop uni now ?c ds2 ?lt [] = (lt2, Inr res2)"
    by (auto simp: get_rules_def split: prod.splits)
  have agree: "\<forall>key \<in> ?K. lt1 key = ?lt key"
  proof
    fix key assume k: "key \<in> ?K"
    show "lt1 key = ?lt key"
    proof (rule ccontr)
      assume "lt1 key \<noteq> ?lt key"
      from rule_sets_loop_changed [OF l1 this] obtain rs1 where
        "time_key uni key" "rs1 \<in> set ds1" "key \<in> fst ` set rs1" by force
      with k dis show False by blast
    qed
  qed
  have sub: "\<forall>rule_set \<in> set ds2. fst ` set rule_set \<subseteq> ?K" by blast
  from rule_sets_loop_agree [OF sub agree, of uni now ?c "[]"] l2
  have "snd (rule_sets_loop uni now ?c ds2 lt1 []) = Inr res2" by simp
  then obtain lt3 where l3: "rule_sets_loop uni now ?c ds2 lt1 [] = (lt3, Inr res2)"
    by (cases "rule_sets_loop uni now ?c ds2 lt1 []") auto
  have "get_rules uni (self1\<lparr>input_count := input_count self\<rparr>) ds2 now
          = (\<lparr>input_count = ?c, last_executed_time = lt3, rules = ds2\<rparr>, Inr res2)"
    by (simp add: get_rules_def s1 l3)
  with g1 show ?thesis by (simp add: get_rules_append)
qed

text \<open>
  C7, as stated, fails: the documents are not evaluated independently. The table of
  last execution times is indexed by the key alone and shared by the documents of a
  call, so when two documents both define \<open>every_60_minutes\<close>, the first document's
  entry records the time and the second document's directives are left out, although
  the second document alone would return them.
\<close>

theorem shared_time_key_counterexample:
  "get_rules (\<lambda>s. None) init [[(''every_60_minutes'', [''A''])], [(''every_60_minutes'', [''B''])]] 0
     = (\<lparr>input_count = 1, last_executed_time = [''every_60_minutes'' \<mapsto> 0],
         rules = [[(''every_60_minutes'', [''A''])], [(''every_60_minutes'', [''B''])]]\<rparr>,
        Inr [''A''])
   \<and> snd (get_rules (\<lambda>s. None) init [[(''every_60_minutes'', [''A''])]] 0) = Inr [''A'']
   \<and> snd (get_rules (\<lambda>s. None) init [[(''every_60_minutes'', [''B''])]] 0) = Inr [''B'']"
  by (simp add: eval_defs float_defs init_def)

text \<open>
  C7, amended. The documents are evaluated in load order with one counter and one
  table: the call on \<open>ds1 @ ds2\<close> is the call on \<open>ds1\<close> followed by the evaluation
  of \<open>ds2\<close> with the same counter and the table as \<open>ds1\<close> left it, and the result
  is the concatenation of the two results, with nothing merged or removed. When no
  time-based key stands both in a document of \<open>ds1\<close> and in a document of \<open>ds2\<close>,
  the result is the concatenation of the results of the two independent evaluations.
\<close>

theorem documents_in_load_order:
  "get_rules uni self (ds1 @ ds2) now =
     (case get_rules uni self ds1 now of
        (self1, Inl e) \<Rightarrow> (self1\<lparr>rules := ds1 @ ds2\<rparr>, Inl e)
      | (self1, Inr res1) \<Rightarrow>
          (case get_rules uni (self1\<lparr>input_count := input_count self\<rparr>) ds2 now of
             (self2, Inl e) \<Rightarrow> (self2\<lparr>rules := ds1 @ ds2\<rparr>, Inl e)
           | (self2, Inr res2) \<Rightarrow> (self2\<lparr>rules := ds1 @ ds2\<rparr>, Inr (res1 @ res2))))
   \<and> ((\<forall>rs1 \<in> set ds1. \<forall>rs2 \<in> set ds2. \<forall>key \<in> fst ` set rs1 \<inter> fst ` set rs2. \<not> time_key uni key)
        \<and> get_rules uni self ds1 now = (s1, Inr r1) \<and> get_rules uni self ds2 now = (s2, Inr r2)
      \<longrightarrow> snd (get_rules uni self (ds1 @ ds2) now) = Inr (r1 @ r2))"
  using get_rules_append [of uni self ds1 ds2 now] get_rules_disjoint [of ds1 ds2 uni self now s1 r1 s2 r2]
  by blast

text \<open>
  Two documents that both define \<open>every_5_inputs\<close>: call 5 returns the first
  document's list followed by the second's, the repeated entry \<open>"b"\<close> twice.
\<close>

theorem documents_in_load_order_witness:
  "\<not> time_key (\<lambda>s. None) ''every_5_inputs''
   \<and> get_rules (\<lambda>s. None) \<lparr>input_count = 4, last_executed_time = Map.empty, rules = []\<rparr>
        [[(''every_5_inputs'', [''a'', ''b''])]] 0
      = (\<lparr>input_count = 5, last_executed_time = Map.empty,
          rules = [[(''every_5_inputs'', [''a'', ''b''])]]\<rparr>, Inr [''a'', ''b''])
   \<and> get_rules (\<lambda>s. None) \<lparr>input_count = 4, last_executed_time = Map.empty, rules = []\<rparr>
        [[(''every_5_inputs'', [''b'', ''c''])]] 0
      = (\<lparr>input_count = 5, last_executed_time = Map.empty,
          rules = [[(''every_5_inputs'', [''b'', ''c''])]]\<rparr>, Inr [''b'', ''c''])
   \<and> snd (get_rules (\<lambda>s. None) \<lparr>input_count = 4, last_executed_time = Map.empty, rules = []\<rparr>
        ([[(''every_5_inputs'', [''a'', ''b''])]] @ [[(''every_5_inputs'', [''b'', ''c''])]]) 0)
      = Inr ([''a'', ''b''] @ [''b'', ''c''])"
proof -
  let ?s = "\<lparr>input_count = 4, last_executed_time = Map.empty, rules = []\<rparr>"
  let ?d1 = "[[(''every_5_inputs'', [''a'', ''b''])]]"
  let ?d2 = "[[(''every_5_inputs'', [''b'', ''c''])]]"
  let ?s1 = "\<lparr>input_count = 5, last_executed_time = Map.empty, rules = ?d1\<rparr>"
  let ?s2 = "\<lparr>input_count = 5, last_executed_time = Map.empty, rules = ?d2\<rparr>"
  have nt: "\<not> time_key (\<lambda>s. None) ''every_5_inputs''" by (simp add: time_key_def startswith_def)
  then have dis: "\<forall>rs1 \<in> set ?d1. \<forall>rs2 \<in> set ?d2. \<forall>key \<in> fst ` set rs1 \<inter> fst ` set rs2. \<not> time_key (\<lambda>s. None) key"
    by simp
  have g1: "get_rules (\<lambda>s. None) ?s ?d1 0 = (?s1, Inr [''a'', ''b''])" by (simp add: eval_defs)
  have g2: "get_rules (\<lambda>s. None) ?s ?d2 0 = (?s2, Inr [''b'', ''c''])" by (simp add: eval_defs)
  from documents_in_load_order [where uni = "\<lambda>s. None" and self = ?s and ?ds1.0 = ?d1 and ?ds2.0 = ?d2 and now = 0
      and ?s1.0 = ?s1 and ?r1.0 = "[''a'', ''b'']" and ?s2.0 = ?s2 and ?r2.0 = "[''b'', ''c'']"]
    dis g1 g2
  have "snd (get_rules (\<lambda>s. None) ?s (?d1 @ ?d2) 0) = Inr ([''a'', ''b''] @ [''b'', ''c''])" by blast
  with nt g1 g2 show ?thesis by blast
qed

end
